theory Spec2Isabelle
  imports
    Complex_Main
    "HOL-Library.Char_ord"
    "HOL-Library.List_Lexorder"
    "HOL-Library.Product_Lexorder"
    "HOL-Library.Sublist"
    "HOL-Library.Multiset"
begin

section \<open>Python primitives used by main.py\<close>

text \<open>
  A Python \<open>str\<close> is modelled as a \<open>string\<close>; one \<open>char\<close> stands for one code point
  below 256. Python floats are modelled as exact rationals: rounding is not part of the
  model. Python's unbounded \<open>int\<close> is \<open>int\<close>. A \<open>dict\<close> is an association list in
  insertion order: assigning to a key that is present keeps its position, a new key goes
  to the end, \<open>pop\<close> removes the key.
\<close>

subsection \<open>Characters and strings\<close>

definition isspace :: "char \<Rightarrow> bool" where
  \<comment> \<open>\<open>str.isspace\<close> on one code point below 256: the set used by \<open>strip\<close>, \<open>split\<close>, \<open>int\<close>
      and by the regular expression class \<open>\s\<close>.\<close>
  "isspace c =
     (let n = (of_char c :: nat)
      in (9 \<le> n \<and> n \<le> 13) \<or> (28 \<le> n \<and> n \<le> 32) \<or> n = 133 \<or> n = 160)"

definition isdigit :: "char \<Rightarrow> bool" where
  "isdigit c = (let n = (of_char c :: nat) in 48 \<le> n \<and> n \<le> 57)"

definition islower_az :: "char \<Rightarrow> bool" where
  "islower_az c = (let n = (of_char c :: nat) in 97 \<le> n \<and> n \<le> 122)"

definition lower_char :: "char \<Rightarrow> char" where
  "lower_char c =
     (let n = (of_char c :: nat)
      in if (65 \<le> n \<and> n \<le> 90) \<or> (192 \<le> n \<and> n \<le> 222 \<and> n \<noteq> 215)
         then char_of (n + 32) else c)"

definition lower :: "string \<Rightarrow> string" where
  "lower s = map lower_char s"

definition strip :: "string \<Rightarrow> string" where
  "strip s = rev (dropWhile isspace (rev (dropWhile isspace s)))"

fun split_words :: "string \<Rightarrow> string \<Rightarrow> string list" where
  \<comment> \<open>\<open>str.split()\<close> with no separator; the first argument is the word being read,
      reversed.\<close>
  "split_words cur [] = (if cur = [] then [] else [rev cur])"
| "split_words cur (c # cs) =
     (if isspace c
      then (if cur = [] then split_words [] cs else rev cur # split_words [] cs)
      else split_words (c # cur) cs)"

definition split_ws :: "string \<Rightarrow> string list" where
  "split_ws s = split_words [] s"

fun join :: "string \<Rightarrow> string list \<Rightarrow> string" where
  "join sep [] = []"
| "join sep [x] = x"
| "join sep (x # y # ys) = x @ sep @ join sep (y # ys)"




subsection \<open>Integers read from and written to text\<close>

definition digit_val :: "char \<Rightarrow> int" where
  "digit_val c = int (of_char c) - 48"

fun parse_digits :: "int \<Rightarrow> bool \<Rightarrow> string \<Rightarrow> int option" where
  \<comment> \<open>Decimal digits, with single underscores allowed between two digits.\<close>
  "parse_digits acc prev [] = (if prev then Some acc else None)"
| "parse_digits acc prev (c # cs) =
     (if isdigit c then parse_digits (acc * 10 + digit_val c) True cs
      else if c = CHR ''_'' \<and> prev then parse_digits acc False cs
      else None)"

definition py_int :: "string \<Rightarrow> int option" where
  \<comment> \<open>\<open>int(text)\<close> on a string; \<open>None\<close> is \<open>ValueError\<close>.\<close>
  "py_int text =
     (case strip text of
        [] \<Rightarrow> None
      | c # cs \<Rightarrow>
          if c = CHR ''-'' then map_option uminus (parse_digits 0 False cs)
          else if c = CHR ''+'' then parse_digits 0 False cs
          else parse_digits 0 False (c # cs))"

definition safe_int :: "string \<Rightarrow> int \<Rightarrow> int" where
  "safe_int text dflt = (case py_int text of Some n \<Rightarrow> n | None \<Rightarrow> dflt)"

definition digit_char :: "nat \<Rightarrow> char" where
  "digit_char d = char_of (48 + d)"

fun str_nat :: "nat \<Rightarrow> string" where
  "str_nat n = (if n < 10 then [digit_char n] else str_nat (n div 10) @ [digit_char (n mod 10)])"

subsection \<open>Dictionaries in insertion order\<close>

definition dict_get :: "('k \<times> 'v) list \<Rightarrow> 'k \<Rightarrow> 'v option" where
  "dict_get d k = map_of d k"

definition dict_get_default :: "('k \<times> 'v) list \<Rightarrow> 'k \<Rightarrow> 'v \<Rightarrow> 'v" where
  "dict_get_default d k v = (case map_of d k of Some x \<Rightarrow> x | None \<Rightarrow> v)"

definition dict_keys :: "('k \<times> 'v) list \<Rightarrow> 'k list" where
  "dict_keys d = map fst d"

definition dict_values :: "('k \<times> 'v) list \<Rightarrow> 'v list" where
  "dict_values d = map snd d"

definition dict_contains :: "('k \<times> 'v) list \<Rightarrow> 'k \<Rightarrow> bool" where
  "dict_contains d k = (k \<in> set (map fst d))"

fun dict_set :: "('k \<times> 'v) list \<Rightarrow> 'k \<Rightarrow> 'v \<Rightarrow> ('k \<times> 'v) list" where
  "dict_set [] k v = [(k, v)]"
| "dict_set ((k', v') # d) k v =
     (if k' = k then (k, v) # d else (k', v') # dict_set d k v)"

definition dict_pop :: "('k \<times> 'v) list \<Rightarrow> 'k \<Rightarrow> ('k \<times> 'v) list" where
  "dict_pop d k = filter (\<lambda>kv. fst kv \<noteq> k) d"

definition dict_of_list :: "('k \<times> 'v) list \<Rightarrow> ('k \<times> 'v) list" where
  \<comment> \<open>\<open>dict(pairs)\<close>: the pairs are assigned one after the other.\<close>
  "dict_of_list kvs = foldl (\<lambda>d kv. dict_set d (fst kv) (snd kv)) [] kvs"

section \<open>The similarity ratio of difflib.SequenceMatcher\<close>

text \<open>
  \<open>find_matching_phrase\<close> calls \<open>SequenceMatcher(None, phrase, existing).ratio()\<close> of
  Python's standard library. The definitions below follow \<open>difflib.py\<close>: there is no junk
  predicate, and \<open>autojunk\<close> keeps its default \<open>True\<close>, so that in a second sequence of 200
  elements or more an element occurring more than \<open>n // 100 + 1\<close> times is popular and is
  left out of the index \<open>b2j\<close>.
\<close>

definition is_popular :: "string \<Rightarrow> char \<Rightarrow> bool" where
  "is_popular b elt =
     (length b \<ge> 200 \<and> length (filter (\<lambda>x. x = elt) b) > length b div 100 + 1)"

definition b2j :: "string \<Rightarrow> char \<Rightarrow> nat list" where
  \<comment> \<open>\<open>__chain_b\<close>: the increasing indices of \<open>elt\<close> in \<open>b\<close>; the empty list stands for a key
      that is absent or was purged as popular.\<close>
  "b2j b elt = (if is_popular b elt then [] else filter (\<lambda>j. b ! j = elt) [0..<length b])"

fun flm_inner ::
  "nat list \<Rightarrow> nat \<Rightarrow> nat \<Rightarrow> nat \<Rightarrow> (int \<times> nat) list \<Rightarrow> (int \<times> nat) list \<Rightarrow> nat \<times> nat \<times> nat
     \<Rightarrow> (int \<times> nat) list \<times> (nat \<times> nat \<times> nat)" where
  \<comment> \<open>The loop \<open>for j in b2j.get(a[i], nothing)\<close> with its \<open>continue\<close> and \<open>break\<close>.\<close>
  "flm_inner [] blo bhi i j2len newj2len best = (newj2len, best)"
| "flm_inner (j # js) blo bhi i j2len newj2len best =
     (if j < blo then flm_inner js blo bhi i j2len newj2len best
      else if j \<ge> bhi then (newj2len, best)
      else
        (let k = dict_get_default j2len (int j - 1) 0 + 1;
             newj2len' = dict_set newj2len (int j) k;
             best' = (case best of (besti, bestj, bestsize) \<Rightarrow>
                        if k > bestsize then (i + 1 - k, j + 1 - k, k) else best)
         in flm_inner js blo bhi i j2len newj2len' best'))"

fun flm_outer ::
  "string \<Rightarrow> string \<Rightarrow> nat list \<Rightarrow> nat \<Rightarrow> nat \<Rightarrow> (int \<times> nat) list \<Rightarrow> nat \<times> nat \<times> nat
     \<Rightarrow> nat \<times> nat \<times> nat" where
  \<comment> \<open>The loop \<open>for i in range(alo, ahi)\<close>.\<close>
  "flm_outer a b [] blo bhi j2len best = best"
| "flm_outer a b (i # is) blo bhi j2len best =
     (case flm_inner (b2j b (a ! i)) blo bhi i j2len [] best of
        (newj2len, best') \<Rightarrow> flm_outer a b is blo bhi newj2len best')"

function extend_left ::
  "string \<Rightarrow> string \<Rightarrow> nat \<Rightarrow> nat \<Rightarrow> nat \<times> nat \<times> nat \<Rightarrow> nat \<times> nat \<times> nat" where
  "extend_left a b alo blo (besti, bestj, bestsize) =
     (if besti > alo \<and> bestj > blo \<and> a ! (besti - 1) = b ! (bestj - 1)
      then extend_left a b alo blo (besti - 1, bestj - 1, bestsize + 1)
      else (besti, bestj, bestsize))"
  by pat_completeness auto
termination
  by (relation "measure (\<lambda>(a, b, alo, blo, besti, bestj, bestsize). besti)") auto

function extend_right ::
  "string \<Rightarrow> string \<Rightarrow> nat \<Rightarrow> nat \<Rightarrow> nat \<times> nat \<times> nat \<Rightarrow> nat \<times> nat \<times> nat" where
  "extend_right a b ahi bhi (besti, bestj, bestsize) =
     (if besti + bestsize < ahi \<and> bestj + bestsize < bhi
         \<and> a ! (besti + bestsize) = b ! (bestj + bestsize)
      then extend_right a b ahi bhi (besti, bestj, bestsize + 1)
      else (besti, bestj, bestsize))"
  by pat_completeness auto
termination
  by (relation "measure (\<lambda>(a, b, ahi, bhi, besti, bestj, bestsize). ahi - (besti + bestsize))")
     auto

definition find_longest_match ::
  "string \<Rightarrow> string \<Rightarrow> nat \<Rightarrow> nat \<Rightarrow> nat \<Rightarrow> nat \<Rightarrow> nat \<times> nat \<times> nat" where
  \<comment> \<open>The junk set is empty, so the two loops that extend a block over junk elements never
      run; the two loops over elements that are not junk remain.\<close>
  "find_longest_match a b alo ahi blo bhi =
     extend_right a b ahi bhi
       (extend_left a b alo blo
          (flm_outer a b [alo..<ahi] blo bhi [] (alo, blo, 0)))"

declare extend_left.simps [simp del] extend_right.simps [simp del] str_nat.simps [simp del]

subsection \<open>The longest block lies inside the window it was searched in\<close>

definition block_within :: "nat \<Rightarrow> nat \<Rightarrow> nat \<times> nat \<times> nat \<Rightarrow> bool" where
  "block_within alo ahi best = (case best of (i, j, k) \<Rightarrow> alo \<le> i \<and> i + k \<le> ahi)"

lemma dict_set_subset: "set (dict_set d k v) \<subseteq> insert (k, v) (set d)"
  by (induction d k v rule: dict_set.induct) auto

lemma dict_get_default_bound:
  "\<forall>kv \<in> set d. snd kv \<le> (n::nat) \<Longrightarrow> dict_get_default d k 0 \<le> n"
  by (fastforce simp: dict_get_default_def split: option.splits dest: map_of_SomeD)

lemma flm_inner_bound:
  assumes "flm_inner js blo bhi i j2len newj2len best = (n', best')"
    and "\<forall>kv \<in> set j2len. snd kv \<le> i - alo"
    and "\<forall>kv \<in> set newj2len. snd kv \<le> i + 1 - alo"
    and "alo \<le> i" and "i < ahi" and "block_within alo ahi best"
  shows "(\<forall>kv \<in> set n'. snd kv \<le> i + 1 - alo) \<and> block_within alo ahi best'"
  using assms
proof (induction js arbitrary: newj2len best)
  case Nil
  then show ?case by simp
next
  case (Cons j js)
  show ?case
  proof (cases "j < blo")
    case True
    with Cons.prems show ?thesis by (intro Cons.IH) auto
  next
    case nlt: False
    show ?thesis
    proof (cases "j \<ge> bhi")
      case True
      with nlt Cons.prems show ?thesis by simp
    next
      case False
      define k where "k = dict_get_default j2len (int j - 1) 0 + 1"
      define nj where "nj = dict_set newj2len (int j) k"
      obtain bi bj bs where best: "best = (bi, bj, bs)" by (cases best) auto
      define b2 where "b2 = (if k > bs then (i + 1 - k, j + 1 - k, k) else best)"
      have kb: "k \<le> i + 1 - alo"
        using dict_get_default_bound[OF Cons.prems(2), of "int j - 1"] Cons.prems(4)
        by (simp add: k_def)
      have step: "flm_inner js blo bhi i j2len nj b2 = (n', best')"
        using Cons.prems(1) nlt False unfolding k_def nj_def b2_def best
        by (auto simp: Let_def)
      have nj_ok: "\<forall>kv \<in> set nj. snd kv \<le> i + 1 - alo"
        using dict_set_subset[of newj2len "int j" k] Cons.prems(3) kb
        by (auto simp: nj_def)
      have b2_ok: "block_within alo ahi b2"
        using Cons.prems(6) kb Cons.prems(4,5)
        by (auto simp: b2_def best block_within_def)
      show ?thesis
        by (rule Cons.IH[OF step Cons.prems(2) nj_ok Cons.prems(4,5) b2_ok])
    qed
  qed
qed

lemma flm_outer_bound:
  assumes "\<forall>kv \<in> set j2len. snd kv \<le> i0 - alo" and "alo \<le> i0" and "block_within alo ahi best"
  shows "block_within alo ahi (flm_outer a b [i0..<ahi] blo bhi j2len best)"
  using assms
proof (induction "ahi - i0" arbitrary: i0 j2len best)
  case 0
  then show ?case by simp
next
  case (Suc n)
  then have lt: "i0 < ahi" by simp
  obtain n' best' where inner:
    "flm_inner (b2j b (a ! i0)) blo bhi i0 j2len [] best = (n', best')"
    by (cases "flm_inner (b2j b (a ! i0)) blo bhi i0 j2len [] best") auto
  from flm_inner_bound[OF inner Suc.prems(1) _ Suc.prems(2) lt Suc.prems(3)]
  have *: "\<forall>kv \<in> set n'. snd kv \<le> Suc i0 - alo" "block_within alo ahi best'" by auto
  have "block_within alo ahi (flm_outer a b [Suc i0..<ahi] blo bhi n' best')"
    using Suc.hyps(2) Suc.prems(2) * by (intro Suc.hyps(1)) auto
  then show ?case using lt inner by (simp add: upt_conv_Cons)
qed

lemma extend_left_bound:
  "block_within alo ahi best \<Longrightarrow> block_within alo ahi (extend_left a b alo blo best)"
proof (induction a b alo blo best rule: extend_left.induct)
  case (1 a b alo blo besti bestj bestsize)
  show ?case
  proof (cases "besti > alo \<and> bestj > blo \<and> a ! (besti - 1) = b ! (bestj - 1)")
    case True
    have "block_within alo ahi (besti - 1, bestj - 1, bestsize + 1)"
      using True "1.prems" by (auto simp: block_within_def)
    from "1.IH"[OF True this] True show ?thesis
      by (subst extend_left.simps) simp
  next
    case False
    from False "1.prems" show ?thesis
      by (subst extend_left.simps) auto
  qed
qed

lemma extend_right_bound:
  "block_within alo ahi best \<Longrightarrow> block_within alo ahi (extend_right a b ahi bhi best)"
proof (induction a b ahi bhi best rule: extend_right.induct)
  case (1 a b ahi bhi besti bestj bestsize)
  show ?case
  proof (cases "besti + bestsize < ahi \<and> bestj + bestsize < bhi
         \<and> a ! (besti + bestsize) = b ! (bestj + bestsize)")
    case True
    have "block_within alo ahi (besti, bestj, bestsize + 1)"
      using True "1.prems" by (auto simp: block_within_def)
    from "1.IH"[OF True this] True show ?thesis
      by (subst extend_right.simps) simp
  next
    case False
    from False "1.prems" show ?thesis
      by (subst extend_right.simps) auto
  qed
qed

lemma find_longest_match_bound:
  assumes "alo \<le> ahi"
  shows "block_within alo ahi (find_longest_match a b alo ahi blo bhi)"
  unfolding find_longest_match_def
  by (intro extend_right_bound extend_left_bound flm_outer_bound)
     (use assms in \<open>auto simp: block_within_def\<close>)

lemma find_longest_match_empty:
  assumes "ahi < alo"
  shows "find_longest_match a b alo ahi blo bhi = (alo, blo, 0)"
  using assms unfolding find_longest_match_def
  by (simp add: extend_left.simps extend_right.simps)

lemma find_longest_match_range:
  assumes "find_longest_match a b alo ahi blo bhi = (i, j, k)" and "k \<noteq> 0"
  shows "alo \<le> i \<and> i + k \<le> ahi"
proof (cases "alo \<le> ahi")
  case True
  from find_longest_match_bound[OF True, of a b blo bhi] assms(1)
  show ?thesis by (simp add: block_within_def)
next
  case False
  then show ?thesis using find_longest_match_empty[of ahi alo a b blo bhi] assms by simp
qed

subsection \<open>Matching blocks and the ratio\<close>

function gmb_loop ::
  "string \<Rightarrow> string \<Rightarrow> (nat \<times> nat \<times> nat \<times> nat) list \<Rightarrow> (nat \<times> nat \<times> nat) list
     \<Rightarrow> (nat \<times> nat \<times> nat) list" where
  \<comment> \<open>The work list of \<open>get_matching_blocks\<close>; its head is the end of the Python list, where
      \<open>pop\<close> takes and \<open>append\<close> puts.\<close>
  "gmb_loop a b [] matching_blocks = matching_blocks"
| "gmb_loop a b ((alo, ahi, blo, bhi) # queue) matching_blocks =
     (case find_longest_match a b alo ahi blo bhi of
        (i, j, k) \<Rightarrow>
          if k \<noteq> 0
          then gmb_loop a b
                 ((if i + k < ahi \<and> j + k < bhi then [(i + k, ahi, j + k, bhi)] else [])
                  @ (if alo < i \<and> blo < j then [(alo, i, blo, j)] else [])
                  @ queue)
                 (matching_blocks @ [(i, j, k)])
          else gmb_loop a b queue matching_blocks)"
  by pat_completeness auto
termination
proof (relation "measure (\<lambda>(a, b, queue, mb). sum_list (map (\<lambda>(alo, ahi, blo, bhi). 2 * (ahi - alo) + 1) queue))", goal_cases)
  case 1
  then show ?case by simp
next
  case (2 a b alo ahi blo bhi queue mb i y j k)
  then have eq: "find_longest_match a b alo ahi blo bhi = (i, j, k)" by simp
  from 2 have "k \<noteq> 0" by simp
  from find_longest_match_range[OF eq this] have "alo \<le> i \<and> i + k \<le> ahi" .
  with \<open>k \<noteq> 0\<close> show ?case by simp linarith
next
  case 3
  then show ?case by simp
qed


declare gmb_loop.simps [simp del]

fun merge_adjacent ::
  "(nat \<times> nat \<times> nat) list \<Rightarrow> nat \<times> nat \<times> nat \<Rightarrow> (nat \<times> nat \<times> nat) list
     \<Rightarrow> (nat \<times> nat \<times> nat) list" where
  \<comment> \<open>The loop that collapses adjacent equal blocks; the second argument is
      \<open>(i1, j1, k1)\<close>.\<close>
  "merge_adjacent [] (i1, j1, k1) non_adjacent =
     (if k1 \<noteq> 0 then non_adjacent @ [(i1, j1, k1)] else non_adjacent)"
| "merge_adjacent ((i2, j2, k2) # rest) (i1, j1, k1) non_adjacent =
     (if i1 + k1 = i2 \<and> j1 + k1 = j2
      then merge_adjacent rest (i1, j1, k1 + k2) non_adjacent
      else merge_adjacent rest (i2, j2, k2)
             (if k1 \<noteq> 0 then non_adjacent @ [(i1, j1, k1)] else non_adjacent))"

definition get_matching_blocks :: "string \<Rightarrow> string \<Rightarrow> (nat \<times> nat \<times> nat) list" where
  "get_matching_blocks a b =
     (let la = length a; lb = length b;
          matching_blocks = sort (gmb_loop a b [(0, la, 0, lb)] [])
      in merge_adjacent matching_blocks (0, 0, 0) [] @ [(la, lb, 0)])"

definition calculate_ratio :: "nat \<Rightarrow> nat \<Rightarrow> rat" where
  "calculate_ratio matches len = (if len \<noteq> 0 then 2 * of_nat matches / of_nat len else 1)"

definition ratio :: "string \<Rightarrow> string \<Rightarrow> rat" where
  "ratio a b =
     calculate_ratio (sum_list (map (\<lambda>(i, j, k). k) (get_matching_blocks a b)))
       (length a + length b)"

section \<open>The application state\<close>

text \<open>
  The fields of \<open>App\<close> that the operations read and write, with the parts of the two
  widgets that mirror the ledger: the rows of the table (\<open>tree\<close>) and the fields of
  \<open>WheelCanvas\<close> (\<open>wheel_rotation\<close>, \<open>wheel_entries\<close> and the current phrase and voter).
  The text of \<open>max_phrases_var\<close> is part of the state because \<open>get_top_votes\<close> reads it.
  The status line, the timer label and the chat log only display text and are left out;
  the clock (\<open>time.time()\<close>), the random impulse, the file that is read and the cells of
  the table that a handler reads are arguments of the operations.
\<close>

record app =
  voting_active :: bool
  vote_end_at :: rat
  spinning :: bool
  rotation :: rat
  spin_velocity :: rat
  vote_counts :: "(string \<times> int) list"
  user_votes :: "(string \<times> string) list"
  max_phrases_var :: string
  tree :: "(string \<times> int) list"
  wheel_rotation :: rat
  wheel_entries :: "(string \<times> int) list"
  wheel_current_phrase :: string
  wheel_current_voted_by :: string

definition init_app :: app where
  \<comment> \<open>\<open>App.__init__\<close>, \<open>WheelCanvas.__init__\<close> and the initial text \<open>"10"\<close> of the entry.\<close>
  "init_app =
     \<lparr> voting_active = False, vote_end_at = 0, spinning = False, rotation = 0,
       spin_velocity = 0, vote_counts = [], user_votes = [], max_phrases_var = ''10'',
       tree = [], wheel_rotation = 0, wheel_entries = [], wheel_current_phrase = [],
       wheel_current_voted_by = [] \<rparr>"

subsection \<open>WheelCanvas\<close>

definition fmod360 :: "rat \<Rightarrow> rat" where
  \<comment> \<open>\<open>x % 360\<close>: the result has the sign of the divisor.\<close>
  "fmod360 x = x - 360 * of_int \<lfloor>x / 360\<rfloor>"

definition set_entries :: "app \<Rightarrow> (string \<times> int) list \<Rightarrow> app" where
  "set_entries s entries = s\<lparr>wheel_entries := filter (\<lambda>kv. snd kv > 0) entries\<rparr>"

definition set_rotation :: "app \<Rightarrow> rat \<Rightarrow> app" where
  "set_rotation s r = s\<lparr>wheel_rotation := fmod360 r\<rparr>"

definition set_current_info :: "app \<Rightarrow> string \<Rightarrow> string \<Rightarrow> app" where
  "set_current_info s phrase voted_by =
     s\<lparr>wheel_current_phrase := phrase, wheel_current_voted_by := voted_by\<rparr>"

subsection \<open>Normalizing and matching phrases\<close>

definition normalize_phrase :: "string \<Rightarrow> string" where
  "normalize_phrase text =
     (let lowered = join '' '' (split_ws (lower (strip text)))
      in strip (filter (\<lambda>c. islower_az c \<or> isdigit c \<or> isspace c) lowered))"

fun find_matching_loop :: "string list \<Rightarrow> string \<Rightarrow> string \<Rightarrow> string option" where
  \<comment> \<open>The loop \<open>for existing in self.vote_counts\<close>, over the keys in insertion order. The
      threshold \<open>0.86\<close> is compared exactly: for sequences of fewer than \<open>10^14\<close> elements
      the rounded quotient is at least the rounded \<open>0.86\<close> just when \<open>2 * M / T\<close> is at
      least \<open>86 / 100\<close>.\<close>
  "find_matching_loop [] phrase ignore_phrase = None"
| "find_matching_loop (existing # rest) phrase ignore_phrase =
     (if ignore_phrase \<noteq> [] \<and> existing = ignore_phrase
      then find_matching_loop rest phrase ignore_phrase
      else if phrase = existing then Some existing
      else if sublist phrase existing \<or> sublist existing phrase then Some existing
      else if ratio phrase existing \<ge> 86 / 100 then Some existing
      else find_matching_loop rest phrase ignore_phrase)"

definition find_matching_phrase :: "app \<Rightarrow> string \<Rightarrow> string \<Rightarrow> string option" where
  "find_matching_phrase s phrase ignore_phrase =
     (if phrase = [] then None
      else find_matching_loop (dict_keys (vote_counts s)) phrase ignore_phrase)"

definition or_phrase :: "string option \<Rightarrow> string \<Rightarrow> string" where
  \<comment> \<open>\<open>matched_phrase or phrase\<close>: \<open>None\<close> and the empty string are both false.\<close>
  "or_phrase matched phrase =
     (case matched of None \<Rightarrow> phrase | Some m \<Rightarrow> if m = [] then phrase else m)"

subsection \<open>The top phrases and the pointer\<close>

definition sort_votes :: "(string \<times> int) list \<Rightarrow> (string \<times> int) list" where
  \<comment> \<open>\<open>sorted(items, key=lambda x: (-x[1], x[0]))\<close>.\<close>
  "sort_votes items = sort_key (\<lambda>x. (- snd x, fst x)) items"

definition get_top_votes :: "app \<Rightarrow> (string \<times> int) list" where
  "get_top_votes s =
     (let max_phrases = max 1 (safe_int (max_phrases_var s) 10)
      in dict_of_list (take (nat max_phrases) (sort_votes (vote_counts s))))"

definition py_trunc :: "rat \<Rightarrow> int" where
  \<comment> \<open>\<open>int(x)\<close> on a float: towards zero.\<close>
  "py_trunc x = (if x \<ge> 0 then \<lfloor>x\<rfloor> else \<lceil>x\<rceil>)"

definition voter_label :: "string \<Rightarrow> int \<Rightarrow> (string \<times> string) list \<Rightarrow> rat \<Rightarrow> rat \<Rightarrow> rat \<Rightarrow> string" where
  \<comment> \<open>The body of the branch of \<open>pointer_details\<close> that found the segment. The branch is
      entered with \<open>extent > 0\<close>, hence \<open>votes > 0\<close>, so the slice \<open>phrase_users[:votes]\<close>
      is a prefix.\<close>
  "voter_label phrase votes uv wheel_angle running extent =
     (let phrase_users = sort (map fst (filter (\<lambda>kv. snd kv = phrase) uv));
          voter_slots = take (nat votes) phrase_users;
          voter_slots =
            (if int (length voter_slots) < votes
             then voter_slots
                  @ map (\<lambda>i. ''unknown-'' @ str_nat (i + 1))
                        [0..<nat (votes - int (length voter_slots))]
             else voter_slots)
      in if voter_slots = [] then ''voted by: -''
         else
           (let local_angle = wheel_angle - running;
                slot_extent = extent / of_nat (length voter_slots);
                slot_idx = min (int (length voter_slots) - 1) (py_trunc (local_angle / slot_extent))
            in ''voted by: '' @ voter_slots ! nat slot_idx))"

fun pointer_loop ::
  "(string \<times> int) list \<Rightarrow> rat \<Rightarrow> rat \<Rightarrow> int \<Rightarrow> (string \<times> string) list
     \<Rightarrow> (string \<times> string) option" where
  \<comment> \<open>The loop \<open>for phrase, votes in top_votes.items()\<close>; \<open>None\<close> when it ends without
      returning.\<close>
  "pointer_loop [] running wheel_angle total_votes uv = None"
| "pointer_loop ((phrase, votes) # rest) running wheel_angle total_votes uv =
     (let extent = 360 * (of_int votes / of_int total_votes)
      in if running \<le> wheel_angle \<and> wheel_angle < running + extent
         then Some (phrase, voter_label phrase votes uv wheel_angle running extent)
         else pointer_loop rest (running + extent) wheel_angle total_votes uv)"

definition pointer_details :: "app \<Rightarrow> string \<times> string" where
  "pointer_details s =
     (let top_votes = get_top_votes s;
          total_votes = sum_list (dict_values top_votes)
      in if total_votes \<le> 0 then ([], [])
         else
           (let pointer_angle = 90;
                wheel_angle = fmod360 (pointer_angle - fmod360 (rotation s))
            in case pointer_loop top_votes 0 wheel_angle total_votes (user_votes s) of
                 Some r \<Rightarrow> r
               | None \<Rightarrow>
                   (case top_votes of [] \<Rightarrow> [] | kv # _ \<Rightarrow> fst kv, ''voted by: -'')))"

definition refresh_table_from_votes :: "app \<Rightarrow> app" where
  "refresh_table_from_votes s =
     (let top_votes = get_top_votes s;
          all_votes = dict_of_list (sort_votes (vote_counts s));
          s1 = set_entries (s\<lparr>tree := all_votes\<rparr>) top_votes;
          current = pointer_details s1
      in set_current_info s1 (fst current) (snd current))"

section \<open>The operations of App\<close>

subsection \<open>Votes from the chat\<close>

definition release_previous :: "(string \<times> int) list \<Rightarrow> string option \<Rightarrow> (string \<times> int) list" where
  \<comment> \<open>The block \<open>if previous_phrase: ...\<close> of \<open>consume_vote\<close>.\<close>
  "release_previous vc previous_phrase =
     (case previous_phrase of
        None \<Rightarrow> vc
      | Some prev \<Rightarrow>
          if prev \<noteq> [] \<and> dict_contains vc prev
          then (let vc' = dict_set vc prev (dict_get_default vc prev 0 - 1)
                in if dict_get_default vc' prev 0 \<le> 0 then dict_pop vc' prev else vc')
          else vc)"

definition consume_vote :: "app \<Rightarrow> string \<Rightarrow> string \<Rightarrow> app" where
  "consume_vote s username message =
     (if \<not> voting_active s then s
      else
        (let username = lower (strip username)
         in if username = [] then s
            else
              (let phrase = normalize_phrase message
               in if phrase = [] then s
                  else
                    (let matched_phrase = find_matching_phrase s phrase [];
                         target_phrase = or_phrase matched_phrase phrase;
                         previous_phrase = dict_get (user_votes s) username
                     in if previous_phrase = Some target_phrase then s
                        else
                          (let vc = release_previous (vote_counts s) previous_phrase;
                               vc = dict_set vc target_phrase
                                      (dict_get_default vc target_phrase 0 + 1);
                               uv = dict_set (user_votes s) username target_phrase
                           in refresh_table_from_votes
                                (s\<lparr>vote_counts := vc, user_votes := uv\<rparr>))))))"

subsection \<open>The voting window\<close>

definition VOTE_DURATION_SECONDS :: rat where
  "VOTE_DURATION_SECONDS = 120"

definition start_vote :: "app \<Rightarrow> rat \<Rightarrow> app" where
  \<comment> \<open>The second argument is \<open>time.time()\<close>.\<close>
  "start_vote s now = s\<lparr>voting_active := True, vote_end_at := now + VOTE_DURATION_SECONDS\<rparr>"

definition clear_vote :: "app \<Rightarrow> app" where
  "clear_vote s =
     refresh_table_from_votes
       (s\<lparr>voting_active := False, vote_end_at := 0, vote_counts := [], user_votes := []\<rparr>)"

definition stop_vote :: "app \<Rightarrow> app" where
  "stop_vote s =
     (if \<not> voting_active s then s else s\<lparr>voting_active := False, vote_end_at := 0\<rparr>)"

definition update_timer :: "app \<Rightarrow> rat \<Rightarrow> app" where
  "update_timer s now =
     (if voting_active s
      then (let remaining = max 0 (py_trunc (vote_end_at s - now))
            in if remaining \<le> 0 then s\<lparr>voting_active := False\<rparr> else s)
      else s)"

subsection \<open>Editing the segments by hand\<close>





subsection \<open>Importing segments\<close>





subsection \<open>Spinning the wheel\<close>

datatype dialog = ShowInfo string string

definition spin_wheel :: "app \<Rightarrow> rat \<Rightarrow> app \<times> dialog option" where
  \<comment> \<open>The second argument is the value of \<open>random.uniform(18, 28)\<close>; the result carries
      the message box that was shown, if any.\<close>
  "spin_wheel s impulse =
     (let top_votes = get_top_votes s
      in if \<not> list_ex (\<lambda>v. v > 0) (dict_values top_votes)
         then (s, Some (ShowInfo ''No segments''
                          ''Add at least one phrase with votes before spinning.''))
         else (s\<lparr>spin_velocity := min (spin_velocity s + impulse) 120, spinning := True\<rparr>,
               None))"

definition update_spin_state :: "app \<Rightarrow> app" where
  "update_spin_state s =
     (let s1 =
            (if spinning s \<or> spin_velocity s > 0
             then
               (let r = rotation s + spin_velocity s;
                    v = spin_velocity s * (985 / 1000);
                    s' = s\<lparr>rotation := r, spin_velocity := v\<rparr>;
                    s' = (if v < 5 / 100 then s'\<lparr>spin_velocity := 0, spinning := False\<rparr>
                          else s')
                in set_rotation s' (rotation s'))
             else s);
          current = pointer_details s1
      in set_current_info s1 (fst current) (snd current))"

section \<open>Facts about the display and the wheel\<close>

lemma refresh_table_from_votes_fields [simp]:
  "voting_active (refresh_table_from_votes s) = voting_active s"
  "vote_end_at (refresh_table_from_votes s) = vote_end_at s"
  "spinning (refresh_table_from_votes s) = spinning s"
  "rotation (refresh_table_from_votes s) = rotation s"
  "spin_velocity (refresh_table_from_votes s) = spin_velocity s"
  "vote_counts (refresh_table_from_votes s) = vote_counts s"
  "user_votes (refresh_table_from_votes s) = user_votes s"
  "max_phrases_var (refresh_table_from_votes s) = max_phrases_var s"
  "wheel_rotation (refresh_table_from_votes s) = wheel_rotation s"
  by (simp_all add: refresh_table_from_votes_def set_entries_def set_current_info_def Let_def)

lemma fmod360_range: "0 \<le> fmod360 x \<and> fmod360 x < 360"
proof -
  have "of_int \<lfloor>x / 360\<rfloor> \<le> x / 360" and "x / 360 < of_int \<lfloor>x / 360\<rfloor> + 1"
    by linarith+
  then show ?thesis
    unfolding fmod360_def by (simp add: field_simps)
qed

definition tick_active :: "app \<Rightarrow> bool" where
  \<comment> \<open>The guard \<open>self.spinning or self.spin_velocity > 0\<close> of \<open>update_spin_state\<close>.\<close>
  "tick_active s = (spinning s \<or> spin_velocity s > 0)"

section \<open>The voting window gates the chat votes\<close>

text \<open>
  Claim C10. A chat event changes nothing while no voting window is open: when
  \<open>voting_active\<close> is false, when the sender is empty after trimming and lower-casing, or
  when the message normalizes to the empty string, \<open>consume_vote\<close> returns the state it
  was given, so \<open>vote_counts\<close> and \<open>user_votes\<close> are as before. \<open>voting_active\<close> is false in
  the initial state, after \<open>stop_vote\<close>, after \<open>clear_vote\<close>, and after a timer tick at or
  past the end of the window, which is 120 seconds after \<open>start_vote\<close>.
\<close>

theorem consume_vote_ignored_outside_window:
  "(\<not> voting_active s \<or> lower (strip username) = [] \<or> normalize_phrase message = []
      \<longrightarrow> consume_vote s username message = s)
   \<and> \<not> voting_active init_app
   \<and> \<not> voting_active (stop_vote s)
   \<and> \<not> voting_active (clear_vote s)
   \<and> (vote_end_at s \<le> now \<longrightarrow> \<not> voting_active (update_timer s now))
   \<and> (t0 + 120 \<le> now \<longrightarrow> \<not> voting_active (update_timer (start_vote s t0) now))"
  by (auto simp: consume_vote_def Let_def init_app_def stop_vote_def clear_vote_def
        update_timer_def start_vote_def py_trunc_def VOTE_DURATION_SECONDS_def)

theorem consume_vote_ignored_outside_window_witness:
  "consume_vote init_app ''alice'' ''pizza'' = init_app
   \<and> consume_vote (start_vote init_app 0) ''  '' ''pizza'' = start_vote init_app 0
   \<and> consume_vote (start_vote init_app 0) ''alice'' ''?!'' = start_vote init_app 0
   \<and> \<not> voting_active (update_timer (start_vote init_app 5) 125)"
proof -
  have a: "\<not> voting_active init_app" by (simp add: init_app_def)
  have b: "lower (strip ''  '') = []" by code_simp
  have c: "normalize_phrase ''?!'' = []" by code_simp
  have d: "(5::rat) + 120 \<le> 125" by simp
  show ?thesis
    using consume_vote_ignored_outside_window[of init_app "''alice''" "''pizza''" 0 0]
      consume_vote_ignored_outside_window[of "start_vote init_app 0" "''  ''" "''pizza''" 0 0]
      consume_vote_ignored_outside_window[of "start_vote init_app 0" "''alice''" "''?!''" 0 0]
      consume_vote_ignored_outside_window[of init_app "''x''" "''y''" 125 5]
      a b c d
    by blast
qed

section \<open>The rotation that is kept wrapped\<close>

text \<open>
  Claim C3, as amended. \<open>update_spin_state\<close> adds the velocity to \<open>App.rotation\<close> and never
  wraps it; the copy that \<open>set_rotation\<close> stores in the canvas is the one that is wrapped.
  After every tick the rotation stored in the canvas lies in \<open>[0, 360)\<close>: a tick that
  moves the wheel stores \<open>rotation % 360\<close> there, and a tick that does not move it leaves
  the stored value as it was. \<open>App.rotation\<close> itself is the sum of the velocities.
\<close>

theorem wheel_rotation_wrapped:
  "(tick_active s \<or> (0 \<le> wheel_rotation s \<and> wheel_rotation s < 360)
      \<longrightarrow> 0 \<le> wheel_rotation (update_spin_state s)
        \<and> wheel_rotation (update_spin_state s) < 360)
   \<and> (tick_active s
      \<longrightarrow> rotation (update_spin_state s) = rotation s + spin_velocity s
        \<and> wheel_rotation (update_spin_state s) = fmod360 (rotation s + spin_velocity s))
   \<and> (\<not> tick_active s \<longrightarrow> rotation (update_spin_state s) = rotation s)"
  using fmod360_range[of "rotation s + spin_velocity s"]
  by (auto simp: update_spin_state_def tick_active_def Let_def set_rotation_def
        set_current_info_def)

theorem wheel_rotation_wrapped_witness:
  "tick_active (init_app\<lparr>spinning := True, rotation := 350, spin_velocity := 20\<rparr>)
   \<and> wheel_rotation
        (update_spin_state (init_app\<lparr>spinning := True, rotation := 350, spin_velocity := 20\<rparr>))
      = 10
   \<and> rotation
        (update_spin_state (init_app\<lparr>spinning := True, rotation := 350, spin_velocity := 20\<rparr>))
      = 370"
proof -
  have a: "tick_active (init_app\<lparr>spinning := True, rotation := 350, spin_velocity := 20\<rparr>)"
    by (simp add: tick_active_def)
  have b: "fmod360 370 = 10" by code_simp
  show ?thesis
    using wheel_rotation_wrapped[of "init_app\<lparr>spinning := True, rotation := 350, spin_velocity := 20\<rparr>"]
      a b
    by (simp add: init_app_def)
qed

text \<open>
  The claim as it was stated fails on \<open>App.rotation\<close>: one vote, five spins of impulse 28
  and four ticks take it to about 469 degrees.
\<close>

theorem rotation_not_wrapped_counterexample:
  "\<not> rotation
       (update_spin_state (update_spin_state (update_spin_state (update_spin_state
          (fst (spin_wheel (fst (spin_wheel (fst (spin_wheel (fst (spin_wheel (fst (spin_wheel
             (consume_vote (start_vote init_app 0) ''alice'' ''pizza'')
             28)) 28)) 28)) 28)) 28))))))
     < 360"
  by code_simp

section \<open>Facts about dictionaries and the top phrases\<close>

lemma dict_set_fresh: "k \<notin> fst ` set d \<Longrightarrow> dict_set d k v = d @ [(k, v)]"
  by (induction d k v rule: dict_set.induct) auto

lemma dict_assign_all_subset:
  "set (foldl (\<lambda>d kv. dict_set d (fst kv) (snd kv)) acc kvs) \<subseteq> set acc \<union> set kvs"
proof (induction kvs arbitrary: acc)
  case Nil
  then show ?case by simp
next
  case (Cons kv kvs)
  have "set (dict_set acc (fst kv) (snd kv)) \<subseteq> insert kv (set acc)"
    using dict_set_subset[of acc "fst kv" "snd kv"] by simp
  with Cons.IH[of "dict_set acc (fst kv) (snd kv)"] show ?case by auto
qed

lemma dict_of_list_subset: "set (dict_of_list kvs) \<subseteq> set kvs"
  using dict_assign_all_subset[of "[]" kvs] by (simp add: dict_of_list_def)

lemma dict_assign_all_distinct:
  "distinct (map fst (acc @ kvs)) \<Longrightarrow>
   foldl (\<lambda>d kv. dict_set d (fst kv) (snd kv)) acc kvs = acc @ kvs"
proof (induction kvs arbitrary: acc)
  case Nil
  then show ?case by simp
next
  case (Cons kv kvs)
  from Cons.prems have fresh: "fst kv \<notin> fst ` set acc" by auto
  have "dict_set acc (fst kv) (snd kv) = acc @ [kv]"
    using dict_set_fresh[OF fresh, of "snd kv"] by simp
  moreover have "distinct (map fst ((acc @ [kv]) @ kvs))" using Cons.prems by simp
  ultimately show ?case using Cons.IH[of "acc @ [kv]"] by simp
qed

lemma dict_of_list_distinct: "distinct (map fst kvs) \<Longrightarrow> dict_of_list kvs = kvs"
  using dict_assign_all_distinct[of "[]" kvs] by (simp add: dict_of_list_def)

lemma get_top_votes_subset: "set (get_top_votes s) \<subseteq> set (vote_counts s)"
proof -
  have "set (take n (sort_votes (vote_counts s))) \<subseteq> set (vote_counts s)" for n
    using set_take_subset[of n "sort_votes (vote_counts s)"] by (simp add: sort_votes_def)
  then show ?thesis
    using dict_of_list_subset unfolding get_top_votes_def Let_def by blast
qed

section \<open>A spin needs a segment\<close>

definition no_segments_dialog :: dialog where
  "no_segments_dialog =
     ShowInfo ''No segments'' ''Add at least one phrase with votes before spinning.''"

text \<open>
  Claim C9. With tallies that are not negative, a spin request on a top view of total
  weight zero changes nothing: \<open>spin_wheel\<close> returns the state it was given, so the
  rotation, the velocity and the spinning flag are as before, and it shows the message
  box "No segments" instead of raising. When the total weight is positive, the impulse
  is added to the velocity, the sum is capped at 120, and the spinning flag is set.
\<close>

theorem spin_wheel_rejects_zero_weight:
  "(list_all (\<lambda>kv. 0 \<le> snd kv) (vote_counts s)
      \<and> sum_list (dict_values (get_top_votes s)) = 0
      \<longrightarrow> spin_wheel s impulse = (s, Some no_segments_dialog))
   \<and> (0 < sum_list (dict_values (get_top_votes s))
      \<longrightarrow> spin_wheel s impulse
          = (s\<lparr>spin_velocity := min (spin_velocity s + impulse) 120, spinning := True\<rparr>, None))"
proof (intro conjI impI)
  assume a: "list_all (\<lambda>kv. 0 \<le> snd kv) (vote_counts s)
      \<and> sum_list (dict_values (get_top_votes s)) = 0"
  then have "\<And>x. x \<in> set (dict_values (get_top_votes s)) \<Longrightarrow> 0 \<le> x"
    using get_top_votes_subset[of s] by (auto simp: list_all_iff dict_values_def)
  with a have "\<forall>x \<in> set (dict_values (get_top_votes s)). x = 0"
    using sum_list_nonneg_eq_0_iff[of "dict_values (get_top_votes s)"] by blast
  then have "\<not> list_ex (\<lambda>v. v > 0) (dict_values (get_top_votes s))"
    by (auto simp: list_ex_iff)
  then show "spin_wheel s impulse = (s, Some no_segments_dialog)"
    by (simp add: spin_wheel_def no_segments_dialog_def Let_def)
next
  assume pos: "0 < sum_list (dict_values (get_top_votes s))"
  have "list_ex (\<lambda>v. v > 0) (dict_values (get_top_votes s))"
  proof (rule ccontr)
    assume "\<not> list_ex (\<lambda>v. v > 0) (dict_values (get_top_votes s))"
    then have np: "\<forall>x \<in> set (dict_values (get_top_votes s)). x \<le> 0"
      by (auto simp: list_ex_iff not_less)
    have "sum_list (dict_values (get_top_votes s)) \<le> 0"
      by (rule sum_list_nonpos) (use np in blast)
    with pos show False by simp
  qed
  then show "spin_wheel s impulse
          = (s\<lparr>spin_velocity := min (spin_velocity s + impulse) 120, spinning := True\<rparr>, None)"
    by (simp add: spin_wheel_def Let_def)
qed

theorem spin_wheel_rejects_zero_weight_witness:
  "spin_wheel init_app 20 = (init_app, Some no_segments_dialog)
   \<and> spin_wheel (init_app\<lparr>vote_counts := [(''pizza'', 2)]\<rparr>) 20
      = (init_app\<lparr>vote_counts := [(''pizza'', 2)], spin_velocity := 20, spinning := True\<rparr>, None)"
proof -
  have a: "list_all (\<lambda>kv. 0 \<le> snd kv) (vote_counts init_app)
      \<and> sum_list (dict_values (get_top_votes init_app)) = 0"
    by code_simp
  have b: "0 < sum_list (dict_values (get_top_votes (init_app\<lparr>vote_counts := [(''pizza'', 2)]\<rparr>)))"
    by code_simp
  have c: "min (spin_velocity (init_app\<lparr>vote_counts := [(''pizza'', 2)]\<rparr>) + 20) 120 = (20::rat)"
    by (simp add: init_app_def)
  show ?thesis
    using spin_wheel_rejects_zero_weight[of init_app 20]
      spin_wheel_rejects_zero_weight[of "init_app\<lparr>vote_counts := [(''pizza'', 2)]\<rparr>" 20]
      a b c
    by (simp add: init_app_def)
qed

section \<open>The top phrases are the sorted tallies, cut at K\<close>

definition vote_before :: "string \<times> int \<Rightarrow> string \<times> int \<Rightarrow> bool" where
  \<comment> \<open>The order of the view: count descending, ties by phrase ascending.\<close>
  "vote_before x y = (snd x > snd y \<or> (snd x = snd y \<and> fst x \<le> fst y))"

definition max_phrases :: "app \<Rightarrow> nat" where
  \<comment> \<open>The number K that \<open>get_top_votes\<close> reads from the entry.\<close>
  "max_phrases s = nat (max 1 (safe_int (max_phrases_var s) 10))"

lemma sort_votes_sorted: "sorted_wrt vote_before (sort_votes xs)"
proof -
  have "sorted (map (\<lambda>x. (- snd x, fst x)) (sort_votes xs))"
    unfolding sort_votes_def by (rule sorted_sort_key)
  then have "sorted_wrt (\<lambda>x y. (- snd x, fst x) \<le> (- snd y, fst y)) (sort_votes xs)"
    by (simp add: sorted_map)
  moreover have "(\<lambda>x y. (- snd x, fst x) \<le> (- snd y, fst y)) = vote_before"
    by (auto simp: vote_before_def fun_eq_iff)
  ultimately show ?thesis by simp
qed

lemma sort_votes_mset: "mset (sort_votes xs) = mset xs"
  by (simp add: sort_votes_def)

lemma sort_votes_order_independent:
  assumes "mset xs = mset ys"
  shows "sort_votes xs = sort_votes ys"
  unfolding sort_votes_def
proof (rule sort_key_eq_sort_key[OF assms])
  show "inj_on (\<lambda>x. (- snd x, fst x)) (set xs)"
    by (auto simp: inj_on_def prod_eq_iff)
qed

lemma get_top_votes_take:
  assumes "distinct (dict_keys (vote_counts s))"
  shows "get_top_votes s = take (max_phrases s) (sort_votes (vote_counts s))"
proof -
  have "mset (map fst (sort_votes (vote_counts s))) = mset (map fst (vote_counts s))"
    by (simp add: sort_votes_mset)
  then have "distinct (map fst (sort_votes (vote_counts s)))"
    using assms by (metis dict_keys_def mset_eq_imp_distinct_iff)
  then have "distinct (map fst (take (max_phrases s) (sort_votes (vote_counts s))))"
    by (simp add: take_map[symmetric])
  from dict_of_list_distinct[OF this] show ?thesis
    by (simp add: get_top_votes_def max_phrases_def Let_def)
qed

lemma top_votes_example:
  "dict_of_list (take (nat (max 1 (safe_int ''2'' 10)))
     (sort_votes [(''a'', 3), (''b'', 3), (''c'', 1)])) = [(''a'', 3), (''b'', 3)]"
  by code_simp

text \<open>
  Claim C7. For a tally map, that is, tallies with distinct phrases, and the number
  \<open>K \<ge> 1\<close> read from the entry, the top view is the first \<open>K\<close> entries of the tallies
  sorted by count descending and, among equal counts, by phrase ascending: the sorted list
  is a permutation of the tallies and is ordered by \<open>vote_before\<close>. The view depends on
  the tallies as a map only, not on their insertion order, and on \<open>K\<close>. For the tallies
  \<open>a: 3, b: 3, c: 1\<close> and \<open>K = 2\<close> the view is \<open>a: 3, b: 3\<close>.
\<close>

theorem get_top_votes_sorted_truncated:
  "(distinct (dict_keys (vote_counts s))
      \<longrightarrow> get_top_votes s = take (max_phrases s) (sort_votes (vote_counts s))
        \<and> 1 \<le> max_phrases s
        \<and> sorted_wrt vote_before (sort_votes (vote_counts s))
        \<and> mset (sort_votes (vote_counts s)) = mset (vote_counts s))
   \<and> (distinct (dict_keys (vote_counts s)) \<and> mset (vote_counts s') = mset (vote_counts s)
        \<and> max_phrases_var s' = max_phrases_var s
      \<longrightarrow> get_top_votes s' = get_top_votes s)
   \<and> (vote_counts s = [(''a'', 3), (''b'', 3), (''c'', 1)] \<and> max_phrases_var s = ''2''
      \<longrightarrow> get_top_votes s = [(''a'', 3), (''b'', 3)])"
proof (intro conjI impI)
  assume d: "distinct (dict_keys (vote_counts s))"
  show "get_top_votes s = take (max_phrases s) (sort_votes (vote_counts s))"
    by (rule get_top_votes_take[OF d])
  show "1 \<le> max_phrases s" by (simp add: max_phrases_def)
  show "sorted_wrt vote_before (sort_votes (vote_counts s))" by (rule sort_votes_sorted)
  show "mset (sort_votes (vote_counts s)) = mset (vote_counts s)" by (rule sort_votes_mset)
next
  assume a: "distinct (dict_keys (vote_counts s)) \<and> mset (vote_counts s') = mset (vote_counts s)
        \<and> max_phrases_var s' = max_phrases_var s"
  then have "mset (map fst (vote_counts s')) = mset (map fst (vote_counts s))" by simp
  with a have d': "distinct (dict_keys (vote_counts s'))"
    by (metis dict_keys_def mset_eq_imp_distinct_iff)
  have "sort_votes (vote_counts s') = sort_votes (vote_counts s)"
    using a by (intro sort_votes_order_independent) simp
  then show "get_top_votes s' = get_top_votes s"
    using a get_top_votes_take[OF d'] get_top_votes_take[of s] by (simp add: max_phrases_def)
next
  assume "vote_counts s = [(''a'', 3), (''b'', 3), (''c'', 1)] \<and> max_phrases_var s = ''2''"
  then show "get_top_votes s = [(''a'', 3), (''b'', 3)]"
    using top_votes_example by (simp add: get_top_votes_def Let_def)
qed

theorem get_top_votes_sorted_truncated_witness:
  "get_top_votes (init_app\<lparr>vote_counts := [(''a'', 3), (''b'', 3), (''c'', 1)],
                           max_phrases_var := ''2''\<rparr>) = [(''a'', 3), (''b'', 3)]
   \<and> get_top_votes (init_app\<lparr>vote_counts := [(''c'', 1), (''b'', 3), (''a'', 3)],
                             max_phrases_var := ''2''\<rparr>) = [(''a'', 3), (''b'', 3)]"
proof -
  let ?s = "init_app\<lparr>vote_counts := [(''a'', 3), (''b'', 3), (''c'', 1)], max_phrases_var := ''2''\<rparr>"
  let ?s' = "init_app\<lparr>vote_counts := [(''c'', 1), (''b'', 3), (''a'', 3)], max_phrases_var := ''2''\<rparr>"
  have a: "distinct (dict_keys (vote_counts ?s))" by (simp add: dict_keys_def)
  have b: "mset (vote_counts ?s') = mset (vote_counts ?s)" by (simp add: add.commute)
  have c: "vote_counts ?s = [(''a'', 3), (''b'', 3), (''c'', 1)] \<and> max_phrases_var ?s = ''2''"
    by simp
  have d: "max_phrases_var ?s' = max_phrases_var ?s" by simp
  have e: "get_top_votes ?s = [(''a'', 3), (''b'', 3)]"
    using get_top_votes_sorted_truncated[of ?s ?s'] c by blast
  have f: "get_top_votes ?s' = get_top_votes ?s"
    using get_top_votes_sorted_truncated[of ?s ?s'] a b d by blast
  show ?thesis using e f by simp
qed

section \<open>The pointer resolves to the segment whose interval holds the wheel angle\<close>











section \<open>Fuzzy matching returns the first phrase that qualifies\<close>

definition phrase_matches :: "string \<Rightarrow> string \<Rightarrow> bool" where
  \<comment> \<open>The three tests of the matcher, as the specification words them: equality, one
      phrase a substring of the other, or a similarity ratio of at least 0.86.\<close>
  "phrase_matches phrase existing =
     (phrase = existing \<or> sublist phrase existing \<or> sublist existing phrase
      \<or> ratio phrase existing \<ge> 86 / 100)"

definition candidates :: "app \<Rightarrow> string \<Rightarrow> string list" where
  \<comment> \<open>The canonical phrases in insertion order, without the excluded phrase if one is
      given.\<close>
  "candidates s ignore_phrase =
     filter (\<lambda>existing. \<not> (ignore_phrase \<noteq> [] \<and> existing = ignore_phrase))
       (dict_keys (vote_counts s))"

lemma find_matching_loop_find:
  "find_matching_loop ks phrase ignore_phrase =
     List.find (phrase_matches phrase)
       (filter (\<lambda>existing. \<not> (ignore_phrase \<noteq> [] \<and> existing = ignore_phrase)) ks)"
  by (induction ks) (auto simp: phrase_matches_def)

lemma find_matching_loop_find_all:
  "find_matching_loop ks phrase [] = List.find (phrase_matches phrase) ks"
  by (simp add: find_matching_loop_find)

lemma find_matching_phrase_find:
  "phrase \<noteq> [] \<Longrightarrow>
   find_matching_phrase s phrase ignore_phrase
     = List.find (phrase_matches phrase) (candidates s ignore_phrase)"
  by (simp add: find_matching_phrase_def candidates_def find_matching_loop_find)

lemma ratio_pizza_piza: "ratio ''piza'' ''pizza'' = 8 / 9"
  by code_simp

text \<open>
  Claim C5. For a candidate phrase that is not empty, \<open>find_matching_phrase\<close> returns the
  first canonical phrase, in insertion order and skipping the excluded phrase if one is
  given, that equals the candidate, contains it, is contained in it, or has a similarity
  ratio \<open>2 * M / T\<close> of at least 0.86 with it, where \<open>M\<close> is the total size of the matching
  blocks of \<open>SequenceMatcher\<close> and \<open>T\<close> the sum of the two lengths. It returns \<open>None\<close> exactly
  when no canonical phrase qualifies.
\<close>

theorem find_matching_phrase_first_match:
  "phrase \<noteq> [] \<longrightarrow>
     find_matching_phrase s phrase ignore_phrase
       = List.find (phrase_matches phrase) (candidates s ignore_phrase)
     \<and> (find_matching_phrase s phrase ignore_phrase = None
          \<longleftrightarrow> (\<forall>existing \<in> set (candidates s ignore_phrase). \<not> phrase_matches phrase existing))
     \<and> (\<forall>found. find_matching_phrase s phrase ignore_phrase = Some found
          \<longrightarrow> (\<exists>earlier later.
                 candidates s ignore_phrase = earlier @ found # later
               \<and> phrase_matches phrase found
               \<and> (\<forall>existing \<in> set earlier. \<not> phrase_matches phrase existing)))"
proof (intro impI conjI allI)
  assume ne: "phrase \<noteq> []"
  show eq: "find_matching_phrase s phrase ignore_phrase
       = List.find (phrase_matches phrase) (candidates s ignore_phrase)"
    by (rule find_matching_phrase_find[OF ne])
  show "find_matching_phrase s phrase ignore_phrase = None
          \<longleftrightarrow> (\<forall>existing \<in> set (candidates s ignore_phrase). \<not> phrase_matches phrase existing)"
    unfolding eq by (auto simp: find_None_iff)
  fix found
  assume "find_matching_phrase s phrase ignore_phrase = Some found"
  then have "List.find (phrase_matches phrase) (candidates s ignore_phrase) = Some found"
    using eq by simp
  then obtain i where i: "i < length (candidates s ignore_phrase)"
      "phrase_matches phrase (candidates s ignore_phrase ! i)"
      "found = candidates s ignore_phrase ! i"
      "\<forall>j<i. \<not> phrase_matches phrase (candidates s ignore_phrase ! j)"
    unfolding find_Some_iff by blast
  let ?c = "candidates s ignore_phrase"
  have "?c = take i ?c @ found # drop (Suc i) ?c"
    using i(1,3) by (simp add: id_take_nth_drop)
  moreover have "\<forall>existing \<in> set (take i ?c). \<not> phrase_matches phrase existing"
    using i(1,4) by (auto simp: in_set_conv_nth)
  ultimately show "\<exists>earlier later.
                 candidates s ignore_phrase = earlier @ found # later
               \<and> phrase_matches phrase found
               \<and> (\<forall>existing \<in> set earlier. \<not> phrase_matches phrase existing)"
    using i(2,3) by blast
qed

theorem find_matching_phrase_first_match_witness:
  "find_matching_phrase
     (init_app\<lparr>vote_counts := [(''cats'', 1), (''pizza'', 2), (''hot pizza'', 1)]\<rparr>) ''piza'' []
     = Some ''pizza''
   \<and> find_matching_phrase
       (init_app\<lparr>vote_counts := [(''cats'', 1), (''pizza'', 2), (''hot pizza'', 1)]\<rparr>)
       ''pizza'' ''pizza''
     = Some ''hot pizza''
   \<and> find_matching_phrase
       (init_app\<lparr>vote_counts := [(''cats'', 1), (''pizza'', 2), (''hot pizza'', 1)]\<rparr>) ''dogs'' []
     = None"
proof -
  let ?s = "init_app\<lparr>vote_counts := [(''cats'', 1), (''pizza'', 2), (''hot pizza'', 1)]\<rparr>"
  have a: "''piza'' \<noteq> []" "''pizza'' \<noteq> []" "''dogs'' \<noteq> []" by simp_all
  have b: "List.find (phrase_matches ''piza'') (candidates ?s []) = Some ''pizza''"
    by code_simp
  have c: "List.find (phrase_matches ''pizza'') (candidates ?s ''pizza'') = Some ''hot pizza''"
    by code_simp
  have d: "List.find (phrase_matches ''dogs'') (candidates ?s []) = None"
    by code_simp
  show ?thesis
    using find_matching_phrase_first_match[of "''piza''" ?s "[]"]
      find_matching_phrase_first_match[of "''pizza''" ?s "''pizza''"]
      find_matching_phrase_first_match[of "''dogs''" ?s "[]"]
      a b c d
    by simp
qed

section \<open>Voting twice in a row\<close>

lemma dict_keys_dict_set:
  "dict_keys (dict_set d k v)
     = (if k \<in> set (dict_keys d) then dict_keys d else dict_keys d @ [k])"
  by (induction d k v rule: dict_set.induct) (auto simp: dict_keys_def)

lemma dict_keys_dict_pop: "dict_keys (dict_pop d k) = filter (\<lambda>x. x \<noteq> k) (dict_keys d)"
  by (induction d) (auto simp: dict_keys_def dict_pop_def)

lemma dict_get_dict_set: "dict_get (dict_set d k v) k' = (if k' = k then Some v else dict_get d k')"
  by (induction d k v rule: dict_set.induct) (auto simp: dict_get_def)

lemma release_previous_keys:
  "dict_keys (release_previous vc previous) = dict_keys vc
   \<or> (\<exists>p. previous = Some p \<and> p \<noteq> []
          \<and> dict_keys (release_previous vc previous) = filter (\<lambda>x. x \<noteq> p) (dict_keys vc))"
proof (cases previous)
  case None
  then show ?thesis by (simp add: release_previous_def)
next
  case (Some p)
  show ?thesis
  proof (cases "p \<noteq> [] \<and> dict_contains vc p")
    case True
    then have "p \<in> set (dict_keys vc)" by (simp add: dict_contains_def dict_keys_def)
    then have keys: "dict_keys (dict_set vc p c) = dict_keys vc" for c
      by (simp add: dict_keys_dict_set)
    show ?thesis
      using True Some keys
      by (auto simp: release_previous_def Let_def dict_keys_dict_pop)
  next
    case False
    then show ?thesis using Some by (auto simp: release_previous_def)
  qed
qed

lemma find_filter_Some:
  "List.find P xs = Some x \<Longrightarrow> Q x \<Longrightarrow> List.find P (filter Q xs) = Some x"
  by (induction xs) (auto split: if_splits)

lemma find_filter_None: "List.find P xs = None \<Longrightarrow> List.find P (filter Q xs) = None"
  by (auto simp: find_None_iff)

lemma find_append:
  "List.find P (xs @ ys) = (case List.find P xs of Some x \<Rightarrow> Some x | None \<Rightarrow> List.find P ys)"
  by (induction xs) auto

lemma phrase_matches_refl: "phrase_matches phrase phrase"
  by (simp add: phrase_matches_def)

lemma target_stable:
  assumes ne: "phrase \<noteq> []"
    and t: "t = or_phrase (List.find (phrase_matches phrase) (dict_keys vc)) phrase"
    and prev: "previous \<noteq> Some t"
  shows "or_phrase
           (List.find (phrase_matches phrase)
              (dict_keys (dict_set (release_previous vc previous) t c))) phrase = t"
proof -
  let ?P = "phrase_matches phrase"
  let ?ks = "dict_keys vc"
  let ?ks1 = "dict_keys (release_previous vc previous)"
  let ?ks2 = "dict_keys (dict_set (release_previous vc previous) t c)"
  have ks2: "?ks2 = (if t \<in> set ?ks1 then ?ks1 else ?ks1 @ [t])"
    by (rule dict_keys_dict_set)
  from release_previous_keys[of vc previous]
  obtain Q where ks1: "?ks1 = filter Q ?ks" and Qempty: "Q []"
    and Qt: "Q t"
  proof (elim disjE exE conjE)
    assume "?ks1 = ?ks"
    then have "?ks1 = filter (\<lambda>x. True) ?ks" by simp
    then show ?thesis using that by blast
  next
    fix p assume "previous = Some p" "p \<noteq> []" "?ks1 = filter (\<lambda>x. x \<noteq> p) ?ks"
    then show ?thesis using that[of "\<lambda>x. x \<noteq> p"] prev by auto
  qed
  show ?thesis
  proof (cases "List.find ?P ?ks")
    case None
    then have tp: "t = phrase" using t by (simp add: or_phrase_def)
    have n1: "List.find ?P ?ks1 = None" unfolding ks1 by (rule find_filter_None[OF None])
    then have "phrase \<notin> set ?ks1"
      using phrase_matches_refl[of phrase] by (auto simp: find_None_iff)
    then have "?ks2 = ?ks1 @ [phrase]" using ks2 tp by simp
    then have "List.find ?P ?ks2 = Some phrase"
      using n1 phrase_matches_refl[of phrase] by (simp add: find_append)
    then show ?thesis using ne tp by (simp add: or_phrase_def)
  next
    case (Some x)
    show ?thesis
    proof (cases "x = []")
      case True
      then have tp: "t = phrase" using t Some by (simp add: or_phrase_def)
      have "List.find ?P ?ks1 = Some []"
        unfolding ks1 using Some True Qempty by (intro find_filter_Some) simp_all
      then have "List.find ?P ?ks2 = Some []"
        using ks2 by (simp add: find_append)
      then show ?thesis using tp by (simp add: or_phrase_def)
    next
      case False
      then have tx: "t = x" using t Some by (simp add: or_phrase_def)
      have f1: "List.find ?P ?ks1 = Some x"
        unfolding ks1 using Some Qt tx by (intro find_filter_Some) simp_all
      then have "x \<in> set ?ks1" by (auto simp: find_Some_iff)
      then have "?ks2 = ?ks1" using ks2 tx by simp
      then show ?thesis using f1 False tx by (simp add: or_phrase_def)
    qed
  qed
qed

lemma consume_vote_unchanged_or_recorded:
  fixes s username message
  defines "un \<equiv> lower (strip username)"
    and "ph \<equiv> normalize_phrase message"
  defines "t \<equiv> or_phrase (find_matching_phrase s ph []) ph"
  defines "vc1 \<equiv> release_previous (vote_counts s) (dict_get (user_votes s) un)"
  shows "consume_vote s username message = s
       \<or> (voting_active s \<and> un \<noteq> [] \<and> ph \<noteq> [] \<and> dict_get (user_votes s) un \<noteq> Some t
          \<and> consume_vote s username message
            = refresh_table_from_votes
                (s\<lparr>vote_counts := dict_set vc1 t (dict_get_default vc1 t 0 + 1),
                   user_votes := dict_set (user_votes s) un t\<rparr>))"
  unfolding un_def ph_def t_def vc1_def
  by (simp add: consume_vote_def Let_def)

lemma consume_vote_same_target:
  assumes "voting_active s"
    and "dict_get (user_votes s) (lower (strip username))
         = Some (or_phrase (find_matching_phrase s (normalize_phrase message) [])
                   (normalize_phrase message))"
  shows "consume_vote s username message = s"
  using assms by (simp add: consume_vote_def Let_def)

text \<open>
  Claim C8. Applying the same sender and message twice in a row changes the ledger once:
  the second \<open>consume_vote\<close> returns the state left by the first, because the sender is
  then already mapped to the phrase that the message resolves to, so \<open>vote_counts\<close> and
  \<open>user_votes\<close> are as the first application left them.
\<close>

theorem consume_vote_idempotent:
  "consume_vote (consume_vote s username message) username message
     = consume_vote s username message"
proof -
  define un where "un = lower (strip username)"
  define ph where "ph = normalize_phrase message"
  define t where "t = or_phrase (find_matching_phrase s ph []) ph"
  define vc1 where "vc1 = release_previous (vote_counts s) (dict_get (user_votes s) un)"
  define s' where "s' = refresh_table_from_votes
                (s\<lparr>vote_counts := dict_set vc1 t (dict_get_default vc1 t 0 + 1),
                   user_votes := dict_set (user_votes s) un t\<rparr>)"
  from consume_vote_unchanged_or_recorded[of s username message]
  consider (same) "consume_vote s username message = s"
    | (recorded) "voting_active s" "un \<noteq> []" "ph \<noteq> []" "dict_get (user_votes s) un \<noteq> Some t"
        "consume_vote s username message = s'"
    unfolding un_def ph_def t_def vc1_def s'_def by blast
  then show ?thesis
  proof cases
    case same
    then show ?thesis by simp
  next
    case recorded
    have t_eq: "t = or_phrase (List.find (phrase_matches ph) (dict_keys (vote_counts s))) ph"
      using recorded(3) by (simp add: t_def find_matching_phrase_def find_matching_loop_find_all)
    have "or_phrase (find_matching_phrase s' ph []) ph = t"
      using recorded(3) target_stable[OF recorded(3) t_eq recorded(4), of "dict_get_default vc1 t 0 + 1"]
      by (simp add: s'_def vc1_def find_matching_phrase_def find_matching_loop_find_all)
    moreover have "dict_get (user_votes s') un = Some t"
      by (simp add: s'_def dict_get_dict_set)
    moreover have "voting_active s'" using recorded(1) by (simp add: s'_def)
    ultimately have "consume_vote s' username message = s'"
      by (intro consume_vote_same_target) (simp_all add: un_def ph_def)
    then show ?thesis using recorded(5) by simp
  qed
qed

theorem consume_vote_idempotent_witness:
  "consume_vote (consume_vote (start_vote init_app 0) ''Alice'' ''Pizza!'') ''Alice'' ''Pizza!''
     = consume_vote (start_vote init_app 0) ''Alice'' ''Pizza!''
   \<and> vote_counts (consume_vote (start_vote init_app 0) ''Alice'' ''Pizza!'') = [(''pizza'', 1)]
   \<and> user_votes (consume_vote (start_vote init_app 0) ''Alice'' ''Pizza!'')
     = [(''alice'', ''pizza'')]"
proof -
  have a: "vote_counts (consume_vote (start_vote init_app 0) ''Alice'' ''Pizza!'') = [(''pizza'', 1)]
   \<and> user_votes (consume_vote (start_vote init_app 0) ''Alice'' ''Pizza!'')
     = [(''alice'', ''pizza'')]"
    by code_simp
  show ?thesis
    using consume_vote_idempotent[of "start_vote init_app 0" "''Alice''" "''Pizza!''"] a
    by simp
qed

section \<open>Tallies and the senders behind them\<close>

definition senders_of :: "(string \<times> string) list \<Rightarrow> string \<Rightarrow> nat" where
  \<comment> \<open>The number of senders whose current vote is the phrase.\<close>
  "senders_of uv phrase = length (filter (\<lambda>kv. snd kv = phrase) uv)"

definition tallies_positive :: "(string \<times> int) list \<Rightarrow> bool" where
  "tallies_positive vc = list_all (\<lambda>kv. 0 < snd kv) vc"

lemma dict_get_default_dict_set:
  "dict_get_default (dict_set d k v) k' x = (if k' = k then v else dict_get_default d k' x)"
  by (induction d k v rule: dict_set.induct) (auto simp: dict_get_default_def)

lemma dict_get_default_dict_pop:
  "dict_get_default (dict_pop d k) k' x = (if k' = k then x else dict_get_default d k' x)"
  by (induction d) (auto simp: dict_get_default_def dict_pop_def)

lemma dict_pop_dict_set: "dict_pop (dict_set d k v) k = dict_pop d k"
  by (induction d k v rule: dict_set.induct) (auto simp: dict_pop_def)

lemma dict_contains_iff_get: "dict_contains d k \<longleftrightarrow> dict_get d k \<noteq> None"
  by (simp add: dict_contains_def dict_get_def map_of_eq_None_iff)

lemma distinct_dict_set: "distinct (dict_keys d) \<Longrightarrow> distinct (dict_keys (dict_set d k v))"
  by (simp add: dict_keys_dict_set)

lemma distinct_dict_pop: "distinct (dict_keys d) \<Longrightarrow> distinct (dict_keys (dict_pop d k))"
  by (simp add: dict_keys_dict_pop)

lemma tallies_positive_dict_set:
  "tallies_positive d \<Longrightarrow> 0 < v \<Longrightarrow> tallies_positive (dict_set d k v)"
  using dict_set_subset[of d k v] by (auto simp: tallies_positive_def list_all_iff)

lemma tallies_positive_dict_pop: "tallies_positive d \<Longrightarrow> tallies_positive (dict_pop d k)"
  by (auto simp: tallies_positive_def list_all_iff dict_pop_def)

lemma tallies_positive_get:
  "tallies_positive d \<Longrightarrow> 0 \<le> dict_get_default d k 0"
  "tallies_positive d \<Longrightarrow> dict_contains d k \<Longrightarrow> 0 < dict_get_default d k 0"
  "tallies_positive d \<Longrightarrow> 0 < dict_get_default d k 0 \<longleftrightarrow> dict_contains d k"
proof -
  assume p: "tallies_positive d"
  have some: "map_of d k = Some c \<Longrightarrow> 0 < c" for c
    using p map_of_SomeD[of d k c] by (fastforce simp: tallies_positive_def list_all_iff)
  show "0 \<le> dict_get_default d k 0"
  proof (cases "map_of d k")
    case None
    then show ?thesis by (simp add: dict_get_default_def)
  next
    case (Some c)
    with some[of c] show ?thesis by (simp add: dict_get_default_def)
  qed
  show c: "0 < dict_get_default d k 0 \<longleftrightarrow> dict_contains d k"
    using some by (cases "map_of d k")
      (simp_all add: dict_get_default_def dict_contains_iff_get dict_get_def)
  show "dict_contains d k \<Longrightarrow> 0 < dict_get_default d k 0" using c by simp
qed

lemma sum_dict_set:
  "sum_list (dict_values (dict_set d k (v::int)))
     = sum_list (dict_values d) - dict_get_default d k 0 + v"
  by (induction d k v rule: dict_set.induct) (auto simp: dict_values_def dict_get_default_def)

lemma sum_dict_pop:
  "distinct (dict_keys d) \<Longrightarrow>
   sum_list (dict_values (dict_pop d k)) = sum_list (dict_values d) - dict_get_default d k (0::int)"
proof (induction d)
  case Nil
  then show ?case by (simp add: dict_values_def dict_pop_def dict_get_default_def)
next
  case (Cons kv d)
  show ?case
  proof (cases "fst kv = k")
    case True
    then have "k \<notin> fst ` set d" using Cons.prems by (auto simp: dict_keys_def)
    then have "dict_pop d k = d" by (auto simp: dict_pop_def filter_id_conv)
    then show ?thesis using True
      by (cases kv) (simp add: dict_pop_def dict_values_def dict_get_default_def)
  next
    case False
    then show ?thesis using Cons
      by (cases kv) (simp add: dict_pop_def dict_values_def dict_get_default_def dict_keys_def)
  qed
qed

lemma senders_of_dict_set:
  "int (senders_of (dict_set uv u t) p)
     = int (senders_of uv p) - (if dict_get uv u = Some p then 1 else 0)
       + (if t = p then 1 else 0)"
  by (induction uv u t rule: dict_set.induct) (auto simp: senders_of_def dict_get_def)

lemma length_dict_set:
  "length (dict_set d k v) = (if dict_get d k = None then length d + 1 else length d)"
  by (induction d k v rule: dict_set.induct) (auto simp: dict_get_def)

lemma release_previous_effect:
  fixes vc :: "(string \<times> int) list" and previous :: "string option"
  assumes "distinct (dict_keys vc)" and "tallies_positive vc"
  defines "released \<equiv> \<lambda>k. previous = Some k \<and> k \<noteq> [] \<and> dict_contains vc k"
  shows "distinct (dict_keys (release_previous vc previous))"
    and "tallies_positive (release_previous vc previous)"
    and "dict_get_default (release_previous vc previous) k 0
           = dict_get_default vc k 0 - (if released k then 1 else 0)"
    and "sum_list (dict_values (release_previous vc previous))
           = sum_list (dict_values vc) - (if \<exists>k. released k then 1 else 0)"
proof -
  let ?r = "release_previous vc previous"
  have "distinct (dict_keys ?r) \<and> tallies_positive ?r
      \<and> dict_get_default ?r k 0 = dict_get_default vc k 0 - (if released k then 1 else 0)
      \<and> sum_list (dict_values ?r)
           = sum_list (dict_values vc) - (if \<exists>k. released k then 1 else 0)"
  proof (cases "\<exists>p. released p")
    case False
    then have "?r = vc"
      by (cases previous) (auto simp: release_previous_def released_def)
    then show ?thesis using assms(1,2) False by auto
  next
    case True
    then obtain p where p: "previous = Some p" "p \<noteq> []" "dict_contains vc p"
      by (auto simp: released_def)
    then have rel: "released k \<longleftrightarrow> k = p" for k by (auto simp: released_def)
    let ?c = "dict_get_default vc p 0"
    let ?vc' = "dict_set vc p (?c - 1)"
    have cpos: "0 < ?c" using tallies_positive_get(2)[OF assms(2) p(3)] .
    have get': "dict_get_default ?vc' k 0 = (if k = p then ?c - 1 else dict_get_default vc k 0)" for k
      by (simp add: dict_get_default_dict_set)
    have d': "distinct (dict_keys ?vc')" by (rule distinct_dict_set[OF assms(1)])
    have sum': "sum_list (dict_values ?vc') = sum_list (dict_values vc) - 1"
      by (simp add: sum_dict_set)
    show ?thesis
    proof (cases "?c - 1 \<le> 0")
      case pop: True
      then have c1: "?c = 1" using cpos by simp
      have r: "?r = dict_pop ?vc' p"
        using p pop by (simp add: release_previous_def Let_def get')
      have "dict_pop ?vc' p = dict_pop vc p"
        by (rule dict_pop_dict_set)
      then have r2: "?r = dict_pop vc p" using r by simp
      show ?thesis
        unfolding r2 using assms(1,2) c1 rel
        by (auto simp: distinct_dict_pop tallies_positive_dict_pop dict_get_default_dict_pop
              sum_dict_pop)
    next
      case keep: False
      have r: "?r = ?vc'"
        using p keep by (simp add: release_previous_def Let_def get')
      have "tallies_positive ?vc'"
        using keep by (intro tallies_positive_dict_set[OF assms(2)]) simp
      then show ?thesis
        unfolding r using d' get' sum' rel by auto
    qed
  qed
  then show "distinct (dict_keys ?r)" "tallies_positive ?r"
    "dict_get_default ?r k 0 = dict_get_default vc k 0 - (if released k then 1 else 0)"
    "sum_list (dict_values ?r) = sum_list (dict_values vc) - (if \<exists>k. released k then 1 else 0)"
    by blast+
qed

section \<open>Chat votes conserve the number of votes\<close>

definition run_votes :: "app \<Rightarrow> (string \<times> string) list \<Rightarrow> app" where
  \<comment> \<open>The chat events of a queue, consumed in their order as \<open>process_events\<close> does.\<close>
  "run_votes s events = foldl (\<lambda>s e. consume_vote s (fst e) (snd e)) s events"

definition ledger_exact :: "app \<Rightarrow> bool" where
  \<comment> \<open>Every tally is the number of senders behind its phrase.\<close>
  "ledger_exact s =
     (distinct (dict_keys (vote_counts s)) \<and> tallies_positive (vote_counts s)
      \<and> distinct (dict_keys (user_votes s)) \<and> list_all (\<lambda>kv. snd kv \<noteq> []) (user_votes s)
      \<and> (\<forall>p. dict_get_default (vote_counts s) p 0 = int (senders_of (user_votes s) p))
      \<and> sum_list (dict_values (vote_counts s)) = int (length (user_votes s)))"

lemma or_phrase_nonempty: "phrase \<noteq> [] \<Longrightarrow> or_phrase matched phrase \<noteq> []"
  by (auto simp: or_phrase_def split: option.splits)

lemma senders_of_positive: "dict_get uv u = Some p \<Longrightarrow> 0 < senders_of uv p"
proof -
  assume "dict_get uv u = Some p"
  then have "(u, p) \<in> set uv" by (auto simp: dict_get_def dest: map_of_SomeD)
  then have "(u, p) \<in> set (filter (\<lambda>kv. snd kv = p) uv)" by simp
  then show ?thesis unfolding senders_of_def by (metis length_pos_if_in_set)
qed

lemma ledger_exact_recorded:
  fixes s :: app and un t :: string
  assumes inv: "ledger_exact s" and t: "t \<noteq> []"
  defines "vc1 \<equiv> release_previous (vote_counts s) (dict_get (user_votes s) un)"
  shows "ledger_exact
           (s\<lparr>vote_counts := dict_set vc1 t (dict_get_default vc1 t 0 + 1),
              user_votes := dict_set (user_votes s) un t\<rparr>)"
proof -
  let ?vc = "vote_counts s" and ?uv = "user_votes s"
  let ?prev = "dict_get ?uv un"
  let ?vc2 = "dict_set vc1 t (dict_get_default vc1 t 0 + 1)"
  let ?uv2 = "dict_set ?uv un t"
  from inv have d: "distinct (dict_keys ?vc)" and pos: "tallies_positive ?vc"
    and du: "distinct (dict_keys ?uv)" and ne: "list_all (\<lambda>kv. snd kv \<noteq> []) ?uv"
    and exact: "\<And>p. dict_get_default ?vc p 0 = int (senders_of ?uv p)"
    and total: "sum_list (dict_values ?vc) = int (length ?uv)"
    by (simp_all add: ledger_exact_def)
  have released: "(?prev = Some k \<and> k \<noteq> [] \<and> dict_contains ?vc k) \<longleftrightarrow> ?prev = Some k" for k
  proof (cases "?prev = Some k")
    case True
    then have "(un, k) \<in> set ?uv" by (auto simp: dict_get_def dest: map_of_SomeD)
    with ne have "k \<noteq> []" by (auto simp: list_all_iff)
    moreover have "0 < dict_get_default ?vc k 0"
      using senders_of_positive[OF True] exact[of k] by simp
    then have "dict_contains ?vc k" using tallies_positive_get(3)[OF pos] by simp
    ultimately show ?thesis using True by simp
  next
    case False
    then show ?thesis by simp
  qed
  note eff = release_previous_effect[OF d pos, of ?prev, folded vc1_def, unfolded released]
  have get1: "dict_get_default vc1 k 0 = dict_get_default ?vc k 0 - (if ?prev = Some k then 1 else 0)" for k
    by (rule eff(3))
  have sum1: "sum_list (dict_values vc1) = sum_list (dict_values ?vc) - (if ?prev = None then 0 else 1)"
    using eff(4) by (cases ?prev) simp_all
  have nonneg: "0 \<le> dict_get_default vc1 t 0" by (rule tallies_positive_get(1)[OF eff(2)])
  have "distinct (dict_keys ?vc2)" by (rule distinct_dict_set[OF eff(1)])
  moreover have "tallies_positive ?vc2"
    using nonneg by (intro tallies_positive_dict_set[OF eff(2)]) simp
  moreover have "distinct (dict_keys ?uv2)" by (rule distinct_dict_set[OF du])
  moreover have "list_all (\<lambda>kv. snd kv \<noteq> []) ?uv2"
    using dict_set_subset[of ?uv un t] ne t by (auto simp: list_all_iff)
  moreover have "dict_get_default ?vc2 p 0 = int (senders_of ?uv2 p)" for p
    by (simp add: dict_get_default_dict_set get1 senders_of_dict_set exact)
  moreover have "sum_list (dict_values ?vc2) = int (length ?uv2)"
    by (simp add: sum_dict_set sum1 length_dict_set total)
  ultimately show ?thesis by (simp add: ledger_exact_def)
qed

lemma ledger_exact_refresh: "ledger_exact (refresh_table_from_votes s) = ledger_exact s"
  by (simp add: ledger_exact_def)

lemma consume_vote_ledger_exact:
  assumes "ledger_exact s"
  shows "ledger_exact (consume_vote s username message)"
proof -
  from consume_vote_unchanged_or_recorded[of s username message]
  show ?thesis
  proof (elim disjE conjE)
    assume "consume_vote s username message = s"
    then show ?thesis using assms by simp
  next
    let ?ph = "normalize_phrase message"
    let ?t = "or_phrase (find_matching_phrase s ?ph []) ?ph"
    assume ph: "?ph \<noteq> []"
      and eq: "consume_vote s username message =
        refresh_table_from_votes
         (s\<lparr>vote_counts :=
               dict_set (release_previous (vote_counts s) (dict_get (user_votes s) (lower (strip username)))) ?t
                (dict_get_default
                  (release_previous (vote_counts s) (dict_get (user_votes s) (lower (strip username)))) ?t 0 + 1),
             user_votes := dict_set (user_votes s) (lower (strip username)) ?t\<rparr>)"
    have "?t \<noteq> []" by (rule or_phrase_nonempty[OF ph])
    from ledger_exact_recorded[OF assms this, of "lower (strip username)"]
    show ?thesis unfolding eq by (simp add: ledger_exact_refresh)
  qed
qed

lemma run_votes_ledger_exact: "ledger_exact s \<Longrightarrow> ledger_exact (run_votes s events)"
  unfolding run_votes_def
  by (induction events arbitrary: s) (simp_all add: consume_vote_ledger_exact)

text \<open>
  Claim C4. From a ledger with no tally and no sender, after any finite sequence of chat
  votes and nothing else, the sum of the tallies in \<open>vote_counts\<close> is the number of distinct
  senders that have an entry in \<open>user_votes\<close>.
\<close>

theorem consume_vote_conserves_votes:
  "vote_counts s = [] \<and> user_votes s = []
   \<longrightarrow> sum_list (dict_values (vote_counts (run_votes s events)))
       = int (card (set (dict_keys (user_votes (run_votes s events)))))"
proof
  assume "vote_counts s = [] \<and> user_votes s = []"
  then have "ledger_exact s"
    by (simp add: ledger_exact_def dict_keys_def dict_values_def tallies_positive_def
          dict_get_default_def senders_of_def)
  then have inv: "ledger_exact (run_votes s events)" by (rule run_votes_ledger_exact)
  then have "distinct (dict_keys (user_votes (run_votes s events)))"
    by (simp add: ledger_exact_def)
  then have "card (set (dict_keys (user_votes (run_votes s events))))
             = length (user_votes (run_votes s events))"
    by (metis dict_keys_def distinct_card length_map)
  with inv show "sum_list (dict_values (vote_counts (run_votes s events)))
       = int (card (set (dict_keys (user_votes (run_votes s events)))))"
    by (simp add: ledger_exact_def)
qed

theorem consume_vote_conserves_votes_witness:
  "sum_list (dict_values (vote_counts (run_votes (start_vote init_app 0)
      [(''Alice'', ''Pizza!''), (''bob'', ''piza''), (''ALICE'', ''dogs''), (''carol'', ''cats'')])))
     = 3
   \<and> card (set (dict_keys (user_votes (run_votes (start_vote init_app 0)
      [(''Alice'', ''Pizza!''), (''bob'', ''piza''), (''ALICE'', ''dogs''), (''carol'', ''cats'')]))))
     = 3"
proof -
  let ?s = "start_vote init_app 0"
  let ?e = "[(''Alice'', ''Pizza!''), (''bob'', ''piza''), (''ALICE'', ''dogs''), (''carol'', ''cats'')]"
  have a: "vote_counts ?s = [] \<and> user_votes ?s = []"
    by (simp add: start_vote_def init_app_def)
  have b: "sum_list (dict_values (vote_counts (run_votes ?s ?e))) = 3"
    by code_simp
  show ?thesis
    using consume_vote_conserves_votes[of ?s ?e] a b by simp
qed

section \<open>What the operations keep of the ledger invariant\<close>

definition ledger_positive :: "app \<Rightarrow> bool" where
  \<comment> \<open>Every stored tally is a positive integer.\<close>
  "ledger_positive s = tallies_positive (vote_counts s)"

definition no_orphans :: "app \<Rightarrow> bool" where
  \<comment> \<open>Every sender is mapped to a phrase that is a key of \<open>vote_counts\<close>.\<close>
  "no_orphans s = list_all (\<lambda>kv. dict_contains (vote_counts s) (snd kv)) (user_votes s)"

definition supported :: "app \<Rightarrow> bool" where
  \<comment> \<open>Every phrase that a sender is mapped to has a tally of at least the number of
      senders mapped to it.\<close>
  "supported s =
     list_all (\<lambda>kv. int (senders_of (user_votes s) (snd kv))
                      \<le> dict_get_default (vote_counts s) (snd kv) 0) (user_votes s)"

lemma ledger_positive_refresh [simp]:
  "ledger_positive (refresh_table_from_votes s) = ledger_positive s"
  by (simp add: ledger_positive_def)

lemma no_orphans_refresh [simp]: "no_orphans (refresh_table_from_votes s) = no_orphans s"
  by (simp add: no_orphans_def)

lemma supported_refresh [simp]: "supported (refresh_table_from_votes s) = supported s"
  by (simp add: supported_def)














subsection \<open>Import\<close>






subsection \<open>The invariant, operation by operation\<close>





end
